theory Spec2Isabelle
  imports Complex_Main
begin

unbundle bit_operations_syntax

section \<open>The rules collaborator (python-chess) as seen by the engine\<close>

text \<open>
  Both source files, \<^verbatim>\<open>chessEngine_uci.py\<close> and \<^verbatim>\<open>chess_engine_v3.py\<close>, drive the
  \<^verbatim>\<open>chess\<close> library. The library is not part of the repository, so everything the engine
  asks of it is a field of the record \<open>rules\<close>: the observers read a position of an
  arbitrary type \<open>'p\<close> (which may carry as much history as the rules need), and
  \<open>apply_move\<close> computes the position a move leads to.
\<close>

datatype color = White | Black

datatype piece_type = Pawn | Knight | Bishop | Rook | Queen | King

record piece =
  piece_type :: piece_type
  color :: color

record ('p, 'm) rules =
  turn :: "'p \<Rightarrow> color"
  piece_at :: "'p \<Rightarrow> nat \<Rightarrow> piece option"
  is_checkmate :: "'p \<Rightarrow> bool"
  is_stalemate :: "'p \<Rightarrow> bool"
  is_insufficient_material :: "'p \<Rightarrow> bool"
  is_game_over :: "'p \<Rightarrow> bool"
  legal_moves :: "'p \<Rightarrow> 'm list"
  apply_move :: "'p \<Rightarrow> 'm \<Rightarrow> 'p"

text \<open>
  A \<^verbatim>\<open>chess.Board\<close> is mutated in place: \<^verbatim>\<open>push\<close> saves the current state on a stack and
  plays the move, \<^verbatim>\<open>pop\<close> restores the state saved last and raises \<^verbatim>\<open>IndexError\<close> on an
  empty stack.
\<close>

record 'p board =
  position :: 'p
  saved :: "'p list"

datatype error = RecursionError | IndexError | ValueError

definition push :: "('p, 'm) rules \<Rightarrow> 'p board \<Rightarrow> 'm \<Rightarrow> 'p board" where
  "push R b m = \<lparr>position = apply_move R (position b) m, saved = position b # saved b\<rparr>"

definition pop :: "'p board \<Rightarrow> error + 'p board" where
  "pop b = (case saved b of
              [] \<Rightarrow> Inl IndexError
            | p # ps \<Rightarrow> Inr \<lparr>position = p, saved = ps\<rparr>)"

text \<open>\<^verbatim>\<open>chess.SQUARES\<close> is \<^verbatim>\<open>range(64)\<close> and \<^verbatim>\<open>chess.square_mirror(sq)\<close> is \<^verbatim>\<open>sq ^ 0x38\<close>.\<close>

definition SQUARES :: "nat list" where
  "SQUARES = [0..<64]"

definition square_mirror :: "nat \<Rightarrow> nat" where
  "square_mirror square = square XOR 56"

section \<open>Scores\<close>

text \<open>
  A score is a Python integer or one of the floats \<^verbatim>\<open>float('-inf')\<close>, \<^verbatim>\<open>float('inf')\<close>;
  Python compares the two kinds exactly.
\<close>

datatype score = NegInf | Fin int | PosInf

instantiation score :: linorder
begin

fun less_eq_score :: "score \<Rightarrow> score \<Rightarrow> bool" where
  "less_eq_score NegInf y = True"
| "less_eq_score (Fin a) NegInf = False"
| "less_eq_score (Fin a) (Fin b) = (a \<le> b)"
| "less_eq_score (Fin a) PosInf = True"
| "less_eq_score PosInf PosInf = True"
| "less_eq_score PosInf y = False"

definition less_score :: "score \<Rightarrow> score \<Rightarrow> bool" where
  "less_score x y = (x \<le> y \<and> \<not> y \<le> x)"

instance
proof
  fix x y z :: score
  show "(x < y) = (x \<le> y \<and> \<not> y \<le> x)"
    by (simp add: less_score_def)
  show "x \<le> x"
    by (cases x) simp_all
  show "x \<le> y \<Longrightarrow> y \<le> z \<Longrightarrow> x \<le> z"
    by (cases x; cases y; cases z) simp_all
  show "x \<le> y \<Longrightarrow> y \<le> x \<Longrightarrow> x = y"
    by (cases x; cases y) simp_all
  show "x \<le> y \<or> y \<le> x"
    by (cases x; cases y) auto
qed

end

section \<open>evaluate_position\<close>

fun PIECE_VALUES :: "piece_type \<Rightarrow> int" where
  "PIECE_VALUES Pawn = 100"
| "PIECE_VALUES Knight = 320"
| "PIECE_VALUES Bishop = 330"
| "PIECE_VALUES Rook = 500"
| "PIECE_VALUES Queen = 900"
| "PIECE_VALUES King = 20000"

definition PAWN_PST :: "int list" where
  "PAWN_PST = [
    0,  0,  0,  0,  0,  0,  0,  0,
    50, 50, 50, 50, 50, 50, 50, 50,
    10, 10, 20, 30, 30, 20, 10, 10,
    5,  5, 10, 25, 25, 10,  5,  5,
    0,  0,  0, 20, 20,  0,  0,  0,
    5, -5,-10,  0,  0,-10, -5,  5,
    5, 10, 10,-20,-20, 10, 10,  5,
    0,  0,  0,  0,  0,  0,  0,  0]"

definition KNIGHT_PST :: "int list" where
  "KNIGHT_PST = [
    -50,-40,-30,-30,-30,-30,-40,-50,
    -40,-20,  0,  0,  0,  0,-20,-40,
    -30,  0, 10, 15, 15, 10,  0,-30,
    -30,  5, 15, 20, 20, 15,  5,-30,
    -30,  0, 15, 20, 20, 15,  0,-30,
    -30,  5, 10, 15, 15, 10,  5,-30,
    -40,-20,  0,  5,  5,  0,-20,-40,
    -50,-40,-30,-30,-30,-30,-40,-50]"

definition BISHOP_PST :: "int list" where
  "BISHOP_PST = KNIGHT_PST"

definition ROOK_PST :: "int list" where
  "ROOK_PST = KNIGHT_PST"

definition QUEEN_PST :: "int list" where
  "QUEEN_PST = KNIGHT_PST"

definition KING_PST :: "int list" where
  "KING_PST = [
    -30,-40,-40,-50,-50,-40,-40,-30,
    -30,-40,-40,-50,-50,-40,-40,-30,
    -30,-40,-40,-50,-50,-40,-40,-30,
    -30,-40,-40,-50,-50,-40,-40,-30,
    -20,-30,-30,-40,-40,-30,-30,-20,
    -10,-20,-20,-20,-20,-20,-20,-10,
    20, 20,  0,  0,  0,  0, 20, 20,
    20, 30, 10,  0,  0, 10, 30, 20]"

fun PST_TABLES :: "piece_type \<Rightarrow> int list" where
  "PST_TABLES Pawn = PAWN_PST"
| "PST_TABLES Knight = KNIGHT_PST"
| "PST_TABLES Bishop = BISHOP_PST"
| "PST_TABLES Rook = ROOK_PST"
| "PST_TABLES Queen = QUEEN_PST"
| "PST_TABLES King = KING_PST"

text \<open>
  One pass of the loop over \<^verbatim>\<open>chess.SQUARES\<close>; the state is the pair
  \<open>(material, piece_square_score)\<close>. Every index used is below 64, the length of each table.
\<close>

definition square_step :: "('p, 'm) rules \<Rightarrow> 'p \<Rightarrow> nat \<Rightarrow> int \<times> int \<Rightarrow> int \<times> int" where
  "square_step R p square acc =
     (case piece_at R p square of
        None \<Rightarrow> acc
      | Some pc \<Rightarrow>
          (let value = PIECE_VALUES (piece_type pc);
               pst = PST_TABLES (piece_type pc);
               square_idx = (if color pc = White then square else square_mirror square);
               pst_value = pst ! square_idx
           in if color pc = White
              then (fst acc + value, snd acc + pst_value)
              else (fst acc - value, snd acc - pst_value)))"

definition evaluate_position :: "('p, 'm) rules \<Rightarrow> 'p \<Rightarrow> int" where
  "evaluate_position R p =
     (if is_checkmate R p then
        (if turn R p = White then -99999 else 99999)
      else if is_stalemate R p \<or> is_insufficient_material R p then 0
      else
        (let (material, piece_square_score) = fold (square_step R p) SQUARES (0, 0);
             total_score = material + piece_square_score
         in if turn R p = White then total_score else - total_score))"

section \<open>alpha_beta\<close>

text \<open>
  The two \<^verbatim>\<open>for move in legal_moves\<close> loops. \<open>search\<close> is the recursive call
  \<^verbatim>\<open>alpha_beta(board, depth - 1, alpha, beta, ...)\<close> as a function of the board and the
  window; the board is threaded through \<^verbatim>\<open>push\<close>, the call and \<^verbatim>\<open>pop\<close>.
\<close>

primrec max_loop ::
  "('p board \<Rightarrow> score \<Rightarrow> score \<Rightarrow> error + (score \<times> 'p board)) \<Rightarrow> ('p, 'm) rules \<Rightarrow>
   'm list \<Rightarrow> 'p board \<Rightarrow> score \<Rightarrow> score \<Rightarrow> score \<Rightarrow> error + (score \<times> 'p board)" where
  "max_loop search R [] board alpha beta max_eval = Inr (max_eval, board)"
| "max_loop search R (move # rest) board alpha beta max_eval =
     (case search (push R board move) alpha beta of
        Inl e \<Rightarrow> Inl e
      | Inr (eval_score, board1) \<Rightarrow>
          (case pop board1 of
             Inl e \<Rightarrow> Inl e
           | Inr board2 \<Rightarrow>
               (let max_eval' = max max_eval eval_score;
                    alpha' = max alpha eval_score
                in if beta \<le> alpha' then Inr (max_eval', board2)
                   else max_loop search R rest board2 alpha' beta max_eval')))"

primrec min_loop ::
  "('p board \<Rightarrow> score \<Rightarrow> score \<Rightarrow> error + (score \<times> 'p board)) \<Rightarrow> ('p, 'm) rules \<Rightarrow>
   'm list \<Rightarrow> 'p board \<Rightarrow> score \<Rightarrow> score \<Rightarrow> score \<Rightarrow> error + (score \<times> 'p board)" where
  "min_loop search R [] board alpha beta min_eval = Inr (min_eval, board)"
| "min_loop search R (move # rest) board alpha beta min_eval =
     (case search (push R board move) alpha beta of
        Inl e \<Rightarrow> Inl e
      | Inr (eval_score, board1) \<Rightarrow>
          (case pop board1 of
             Inl e \<Rightarrow> Inl e
           | Inr board2 \<Rightarrow>
               (let min_eval' = min min_eval eval_score;
                    beta' = min beta eval_score
                in if beta' \<le> alpha then Inr (min_eval', board2)
                   else min_loop search R rest board2 alpha beta' min_eval')))"

text \<open>
  The first argument counts the nested \<^verbatim>\<open>alpha_beta\<close> frames the interpreter still allows
  (Python raises \<^verbatim>\<open>RecursionError\<close> beyond its recursion limit). \<open>depth\<close> is a Python
  integer: only \<^verbatim>\<open>depth == 0\<close> stops the descent, a negative depth never does.
\<close>

primrec alpha_beta ::
  "nat \<Rightarrow> ('p, 'm) rules \<Rightarrow> 'p board \<Rightarrow> int \<Rightarrow> score \<Rightarrow> score \<Rightarrow> bool \<Rightarrow>
   error + (score \<times> 'p board)" where
  "alpha_beta 0 R board depth alpha beta maximizing_player = Inl RecursionError"
| "alpha_beta (Suc limit) R board depth alpha beta maximizing_player =
     (if depth = 0 \<or> is_game_over R (position board)
      then Inr (Fin (evaluate_position R (position board)), board)
      else
        (let moves = legal_moves R (position board)
         in if moves = [] then Inr (Fin (evaluate_position R (position board)), board)
            else if maximizing_player
            then max_loop (\<lambda>b a be. alpha_beta limit R b (depth - 1) a be False)
                   R moves board alpha beta NegInf
            else min_loop (\<lambda>b a be. alpha_beta limit R b (depth - 1) a be True)
                   R moves board alpha beta PosInf))"

section \<open>find_best_move\<close>

text \<open>
  \<^verbatim>\<open>time.time()\<close> is read once at the start and once before every root move;
  \<open>clock n\<close> is the \<open>n\<close>-th reading of one call, and \<open>k\<close> numbers the reading the
  loop is about to take. Printing is left out.
\<close>

subsection \<open>chessEngine_uci.py\<close>

primrec uci_root_loop ::
  "nat \<Rightarrow> ('p, 'm) rules \<Rightarrow> (nat \<Rightarrow> real) \<Rightarrow> real \<Rightarrow> real \<Rightarrow> int \<Rightarrow> 'm list \<Rightarrow> nat \<Rightarrow>
   'p board \<Rightarrow> 'm option \<Rightarrow> score \<Rightarrow> error + ('m option \<times> score \<times> 'p board)" where
  "uci_root_loop limit R clock start_time time_limit depth [] k board best_move best_score =
     Inr (best_move, best_score, board)"
| "uci_root_loop limit R clock start_time time_limit depth (move # rest) k board best_move best_score =
     (if clock k - start_time > time_limit then Inr (best_move, best_score, board)
      else
        (let board1 = push R board move
         in case alpha_beta limit R board1 (depth - 1) NegInf PosInf
                   (turn R (position board1) = Black) of
              Inl e \<Rightarrow> Inl e
            | Inr (score, board2) \<Rightarrow>
                (case pop board2 of
                   Inl e \<Rightarrow> Inl e
                 | Inr board3 \<Rightarrow>
                     if turn R (position board3) = White then
                       (if score > best_score
                        then uci_root_loop limit R clock start_time time_limit depth rest (Suc k)
                               board3 (Some move) score
                        else uci_root_loop limit R clock start_time time_limit depth rest (Suc k)
                               board3 best_move best_score)
                     else
                       (if score < best_score
                        then uci_root_loop limit R clock start_time time_limit depth rest (Suc k)
                               board3 (Some move) score
                        else uci_root_loop limit R clock start_time time_limit depth rest (Suc k)
                               board3 best_move best_score))))"

definition uci_find_best_move ::
  "nat \<Rightarrow> ('p, 'm) rules \<Rightarrow> (nat \<Rightarrow> real) \<Rightarrow> 'p board \<Rightarrow> int \<Rightarrow> real \<Rightarrow>
   error + ('m option \<times> 'p board)" where
  "uci_find_best_move limit R clock board depth time_limit =
     (let start_time = clock 0;
          best_move = None;
          best_score = (if turn R (position board) = White then NegInf else PosInf);
          moves = legal_moves R (position board)
      in if moves = [] then Inr (None, board)
         else
           (case uci_root_loop limit R clock start_time time_limit depth moves 1
                   board best_move best_score of
              Inl e \<Rightarrow> Inl e
            | Inr (best_move', best_score', board') \<Rightarrow> Inr (best_move', board')))"

subsection \<open>chess_engine_v3.py\<close>

text \<open>
  Python's \<^verbatim>\<open>max(xs, key=...)\<close> and \<^verbatim>\<open>min(xs, key=...)\<close> keep the first of several
  extremal items and raise \<^verbatim>\<open>ValueError\<close> on an empty list.
\<close>

definition py_max :: "('a \<Rightarrow> score) \<Rightarrow> 'a list \<Rightarrow> error + 'a" where
  "py_max key xs =
     (case xs of
        [] \<Rightarrow> Inl ValueError
      | x # rest \<Rightarrow> Inr (fold (\<lambda>y best. if key best < key y then y else best) rest x))"

definition py_min :: "('a \<Rightarrow> score) \<Rightarrow> 'a list \<Rightarrow> error + 'a" where
  "py_min key xs =
     (case xs of
        [] \<Rightarrow> Inl ValueError
      | x # rest \<Rightarrow> Inr (fold (\<lambda>y best. if key y < key best then y else best) rest x))"

primrec v3_root_loop ::
  "nat \<Rightarrow> ('p, 'm) rules \<Rightarrow> (nat \<Rightarrow> real) \<Rightarrow> real \<Rightarrow> real \<Rightarrow> int \<Rightarrow> 'm list \<Rightarrow> nat \<Rightarrow>
   'p board \<Rightarrow> ('m \<times> score) list \<Rightarrow> error + (('m \<times> score) list \<times> 'p board)" where
  "v3_root_loop limit R clock start_time time_limit depth [] k search_board move_scores =
     Inr (move_scores, search_board)"
| "v3_root_loop limit R clock start_time time_limit depth (move # rest) k search_board move_scores =
     (if clock k - start_time > time_limit then Inr (move_scores, search_board)
      else
        (let board1 = push R search_board move
         in case alpha_beta limit R board1 (depth - 1) NegInf PosInf
                   (turn R (position board1) = Black) of
              Inl e \<Rightarrow> Inl e
            | Inr (score, board2) \<Rightarrow>
                (case pop board2 of
                   Inl e \<Rightarrow> Inl e
                 | Inr board3 \<Rightarrow>
                     v3_root_loop limit R clock start_time time_limit depth rest (Suc k)
                       board3 (move_scores @ [(move, score)]))))"

text \<open>
  \<^verbatim>\<open>search_board = board.copy()\<close> is a second object with the same position and stack; the
  caller's \<open>board\<close> is only read. \<^verbatim>\<open>legal_moves[0] if legal_moves else None\<close> is
  \<open>first_or_None\<close>.
\<close>

definition first_or_None :: "'a list \<Rightarrow> 'a option" where
  "first_or_None xs = (case xs of [] \<Rightarrow> None | x # rest \<Rightarrow> Some x)"

definition v3_find_best_move ::
  "nat \<Rightarrow> ('p, 'm) rules \<Rightarrow> (nat \<Rightarrow> real) \<Rightarrow> 'p board \<Rightarrow> int \<Rightarrow> real \<Rightarrow> error + 'm option" where
  "v3_find_best_move limit R clock board depth time_limit =
     (let start_time = clock 0;
          search_board = board;
          moves = legal_moves R (position search_board)
      in if moves = [] then Inr None
         else
           (case v3_root_loop limit R clock start_time time_limit depth moves 1 search_board [] of
              Inl e \<Rightarrow> Inl e
            | Inr (move_scores, search_board') \<Rightarrow>
                if move_scores = [] then Inr (first_or_None moves)
                else
                  (case (if turn R (position board) = White then py_max snd move_scores
                         else py_min snd move_scores) of
                     Inl e \<Rightarrow> Inl e
                   | Inr (best_move, best_score) \<Rightarrow>
                       if best_move \<notin> set (legal_moves R (position board))
                       then Inr (first_or_None moves)
                       else Inr (Some best_move))))"

section \<open>uci_loop: the position command\<close>

text \<open>
  \<^verbatim>\<open>str.split()\<close> cuts at runs of whitespace and yields no empty word;
  \<^verbatim>\<open>xs[i:j]\<close> clamps its bounds and counts a negative bound from the end.
\<close>

definition is_space :: "char \<Rightarrow> bool" where
  "is_space c = (c \<in> set [CHR '' '', CHR 0x09, CHR 0x0A, CHR 0x0B, CHR 0x0C, CHR 0x0D,
                          CHR 0x1C, CHR 0x1D, CHR 0x1E, CHR 0x1F])"

primrec split_from :: "string \<Rightarrow> string \<Rightarrow> string list" where
  "split_from word [] = (if word = [] then [] else [rev word])"
| "split_from word (c # cs) =
     (if is_space c then (if word = [] then split_from [] cs else rev word # split_from [] cs)
      else split_from (c # word) cs)"

definition split :: "string \<Rightarrow> string list" where
  "split line = split_from [] line"

definition slice_bound :: "nat \<Rightarrow> int \<Rightarrow> nat" where
  "slice_bound n i = (if i < 0 then nat (max 0 (int n + i)) else min n (nat i))"

definition slice :: "'a list \<Rightarrow> int \<Rightarrow> int \<Rightarrow> 'a list" where
  "slice xs i j = drop (slice_bound (length xs) i) (take (slice_bound (length xs) j) xs)"

fun join :: "string \<Rightarrow> string list \<Rightarrow> string" where
  "join sep [] = []"
| "join sep [x] = x"
| "join sep (x # y # ys) = x @ sep @ join sep (y # ys)"

definition index :: "'a list \<Rightarrow> 'a \<Rightarrow> nat" where
  "index xs x = length (takeWhile (\<lambda>y. y \<noteq> x) xs)"

text \<open>
  The branch \<^verbatim>\<open>elif parts[1] == "fen"\<close> of \<^verbatim>\<open>uci_loop\<close>: the string handed to
  \<^verbatim>\<open>chess.Board(fen)\<close> and the move words replayed with \<^verbatim>\<open>push_uci\<close>.
\<close>

definition position_fen :: "string list \<Rightarrow> string \<times> string list" where
  "position_fen parts =
     (let fen = join '' '' (slice parts 2
                  (if ''moves'' \<in> set parts then int (index parts ''moves'') else -1))
      in (fen, if ''moves'' \<in> set parts then drop (index parts ''moves'' + 1) parts else []))"

section \<open>A finite excerpt of a game tree\<close>

text \<open>
  A node records what the rules component answers at one position: the side to move, the
  occupied squares, the four status tests and, for every legal move in enumeration order,
  the node the move leads to.
\<close>

datatype node = Node (n_turn: color) (n_pieces: "(nat \<times> piece) list")
  (n_checkmate: bool) (n_stalemate: bool) (n_insufficient: bool) (n_over: bool)
  (n_children: "(string \<times> node) list")

definition tree_rules :: "(node, string) rules" where
  "tree_rules =
     \<lparr>turn = n_turn,
      piece_at = (\<lambda>p. map_of (n_pieces p)),
      is_checkmate = n_checkmate,
      is_stalemate = n_stalemate,
      is_insufficient_material = n_insufficient,
      is_game_over = n_over,
      legal_moves = (\<lambda>p. map fst (n_children p)),
      apply_move = (\<lambda>p m. case map_of (n_children p) m of Some c \<Rightarrow> c | None \<Rightarrow> p)\<rparr>"

section \<open>Notions used to state the properties\<close>

text \<open>The positions at most \<open>n\<close> legal moves away from \<open>p\<close>, \<open>p\<close> itself first.\<close>

primrec positions_within :: "('p, 'm) rules \<Rightarrow> 'p \<Rightarrow> nat \<Rightarrow> 'p list" where
  "positions_within R p 0 = [p]"
| "positions_within R p (Suc n) =
     p # concat (map (\<lambda>m. positions_within R (apply_move R p m) n) (legal_moves R p))"

text \<open>
  Full minimax without pruning over the tree that \<open>alpha_beta\<close> walks: the same leaves
  (depth 0, game over, no legal move), the same evaluator there, the greatest child score
  at a maximizing node and the least at a minimizing one.
\<close>

primrec minimax :: "('p, 'm) rules \<Rightarrow> nat \<Rightarrow> 'p \<Rightarrow> bool \<Rightarrow> score" where
  "minimax R 0 p maximizing = Fin (evaluate_position R p)"
| "minimax R (Suc n) p maximizing =
     (if is_game_over R p \<or> legal_moves R p = [] then Fin (evaluate_position R p)
      else if maximizing
      then fold max (map (\<lambda>m. minimax R n (apply_move R p m) False) (legal_moves R p)) NegInf
      else fold min (map (\<lambda>m. minimax R n (apply_move R p m) True) (legal_moves R p)) PosInf)"

text \<open>
  What a search with window \<open>(alpha, beta)\<close> that returned \<open>r\<close> says about the true
  value \<open>v\<close>: exact inside the window, a bound on the matching side outside.
\<close>

definition agrees :: "score \<Rightarrow> score \<Rightarrow> score \<Rightarrow> score \<Rightarrow> bool" where
  "agrees alpha beta r v =
     ((r \<le> alpha \<longrightarrow> v \<le> r) \<and> (alpha < r \<and> r < beta \<longrightarrow> r = v) \<and> (beta \<le> r \<longrightarrow> r \<le> v))"

text \<open>
  One comparison of the root loop of \<^verbatim>\<open>chessEngine_uci.py\<close>: \<open>best\<close> is
  \<open>(best_move, best_score)\<close>, \<open>x\<close> the move just searched with its score, \<open>c\<close> the
  side to move at the root.
\<close>

definition better :: "color \<Rightarrow> 'm \<times> score \<Rightarrow> 'm option \<times> score \<Rightarrow> 'm option \<times> score" where
  "better c x best =
     (if c = White then (if snd x > snd best then (Some (fst x), snd x) else best)
      else (if snd x < snd best then (Some (fst x), snd x) else best))"

text \<open>
  The choice the specification describes: among the searched root moves, the first in
  enumeration order whose score is the greatest (White) or the least (Black).
\<close>

definition first_best :: "color \<Rightarrow> ('m \<times> score) list \<Rightarrow> 'm option" where
  "first_best c move_scores =
     map_option fst
       (find (\<lambda>x. snd x = (if c = White then fold max (map snd move_scores) NegInf
                             else fold min (map snd move_scores) PosInf))
          move_scores)"

text \<open>
  What the piece on one square adds to \<^verbatim>\<open>total_score\<close>: material and table value, with a
  plus sign for a white piece and a minus sign for a black one.
\<close>

definition contribution :: "('p, 'm) rules \<Rightarrow> 'p \<Rightarrow> nat \<Rightarrow> int" where
  "contribution R p square =
     (case piece_at R p square of
        None \<Rightarrow> 0
      | Some pc \<Rightarrow>
          (if color pc = White
           then PIECE_VALUES (piece_type pc) + PST_TABLES (piece_type pc) ! square
           else - (PIECE_VALUES (piece_type pc) + PST_TABLES (piece_type pc) ! square_mirror square)))"

section \<open>Concrete positions\<close>

text \<open>Squares are numbered from a1 = 0 along the ranks to h8 = 63.\<close>

definition white :: "piece_type \<Rightarrow> piece" where
  "white t = \<lparr>piece_type = t, color = White\<rparr>"

definition black :: "piece_type \<Rightarrow> piece" where
  "black t = \<lparr>piece_type = t, color = Black\<rparr>"

definition fresh_board :: "'p \<Rightarrow> 'p board" where
  "fresh_board p = \<lparr>position = p, saved = []\<rparr>"

text \<open>
  White king f7, white pawn h6, black king h7, White to move
  (\<^verbatim>\<open>8/5K1k/7P/8/8/8/8/8 w - - 0 1\<close>). The king has five legal moves, enumerated in this
  order; the pawn is blocked. \<open>kp_after k\<close> is the position with the white king on square
  \<open>k\<close> and Black to move: no check, the black king can move, a pawn is on the board. The
  excerpt ends there and these nodes list no moves; the searches below reach them at depth 0
  and never ask for their moves.
\<close>

definition kp_after :: "nat \<Rightarrow> node" where
  "kp_after k = Node Black [(k, white King), (47, white Pawn), (55, black King)]
                  False False False False []"

definition kp_root :: node where
  "kp_root = Node White [(53, white King), (47, white Pawn), (55, black King)]
               False False False False
               [(''f7f8'', kp_after 61), (''f7e8'', kp_after 60), (''f7e7'', kp_after 52),
                (''f7f6'', kp_after 45), (''f7e6'', kp_after 44)]"

text \<open>
  The same position with the colours exchanged and the board mirrored vertically: black
  king f2, black pawn h3, white king h2, Black to move
  (\<^verbatim>\<open>8/8/8/8/8/7p/5k1K/8 b - - 0 1\<close>).
\<close>

definition kp_mirrored_after :: "nat \<Rightarrow> node" where
  "kp_mirrored_after k = Node White [(k, black King), (23, black Pawn), (15, white King)]
                           False False False False []"

definition kp_mirrored :: node where
  "kp_mirrored = Node Black [(13, black King), (23, black Pawn), (15, white King)]
                   False False False False
                   [(''f2f3'', kp_mirrored_after 21), (''f2e3'', kp_mirrored_after 20),
                    (''f2e2'', kp_mirrored_after 12), (''f2f1'', kp_mirrored_after 5),
                    (''f2e1'', kp_mirrored_after 4)]"

text \<open>
  Two mates on the edge: white rook a8, white king g6, black king h8, Black to move
  (\<^verbatim>\<open>R6k/8/6K1/8/8/8/8/8 b - - 0 1\<close>), and its mirror image with White mated
  (\<^verbatim>\<open>8/8/8/8/8/6k1/8/r6K w - - 0 1\<close>).
\<close>

definition black_mated :: node where
  "black_mated = Node Black [(56, white Rook), (46, white King), (63, black King)]
                   True False False True []"

definition white_mated :: node where
  "white_mated = Node White [(0, black Rook), (22, black King), (7, white King)]
                   True False False True []"

text \<open>A clock that advances one second between two readings.\<close>

definition ticking :: "nat \<Rightarrow> real" where
  "ticking n = real n"

text \<open>
  \<open>q\<close> is \<open>p\<close> with the colours exchanged, the board mirrored vertically and the other
  side to move.
\<close>

definition swap_color :: "piece \<Rightarrow> piece" where
  "swap_color pc = pc\<lparr>color := (if color pc = White then Black else White)\<rparr>"

definition mirrored :: "('p, 'm) rules \<Rightarrow> 'p \<Rightarrow> 'p \<Rightarrow> bool" where
  "mirrored R p q =
     (turn R q \<noteq> turn R p \<and>
      list_all (\<lambda>sq. piece_at R q sq = map_option swap_color (piece_at R p (square_mirror sq)))
        SQUARES)"

section \<open>Boards and scores\<close>

lemma pop_push: "pop (push R b m) = Inr b"
  by (simp add: pop_def push_def)

lemma position_push: "position (push R b m) = apply_move R (position b) m"
  by (simp add: push_def)

lemma NegInf_least [simp]: "NegInf \<le> x"
  by simp

lemma PosInf_greatest [simp]: "x \<le> PosInf"
  by (cases x) simp_all

lemma PosInf_le [simp]: "PosInf \<le> x \<longleftrightarrow> x = PosInf"
  by (cases x) simp_all

lemma le_NegInf [simp]: "x \<le> NegInf \<longleftrightarrow> x = NegInf"
  by (cases x) simp_all

lemma max_NegInf [simp]: "max NegInf x = x"
  by (simp add: max_def)

lemma min_PosInf [simp]: "min PosInf x = x"
  by (simp add: min_def)


subsection \<open>Every push is undone\<close>

lemma max_loop_board:
  assumes "\<And>b a be v b'. search b a be = Inr (v, b') \<Longrightarrow> b' = b"
  shows "max_loop search R ms b alpha beta m = Inr (v, b') \<Longrightarrow> b' = b"
proof (induction ms arbitrary: alpha m)
  case Nil
  then show ?case by simp
next
  case (Cons mv rest)
  from Cons.prems obtain e b1 where s: "search (push R b mv) alpha beta = Inr (e, b1)"
    by (auto split: sum.splits)
  with assms have b1: "b1 = push R b mv" by blast
  from Cons.prems s b1 show ?case
    using Cons.IH by (auto simp: pop_push Let_def split: if_splits)
qed

lemma min_loop_board:
  assumes "\<And>b a be v b'. search b a be = Inr (v, b') \<Longrightarrow> b' = b"
  shows "min_loop search R ms b alpha beta m = Inr (v, b') \<Longrightarrow> b' = b"
proof (induction ms arbitrary: beta m)
  case Nil
  then show ?case by simp
next
  case (Cons mv rest)
  from Cons.prems obtain e b1 where s: "search (push R b mv) alpha beta = Inr (e, b1)"
    by (auto split: sum.splits)
  with assms have b1: "b1 = push R b mv" by blast
  from Cons.prems s b1 show ?case
    using Cons.IH by (auto simp: pop_push Let_def split: if_splits)
qed

lemma alpha_beta_board:
  "alpha_beta limit R b depth alpha beta mx = Inr (v, b') \<Longrightarrow> b' = b"
proof (induction limit arbitrary: b depth alpha beta mx v b')
  case 0
  then show ?case by simp
next
  case (Suc limit)
  have rec: "\<And>f b a be v b'. alpha_beta limit R b (depth - 1) a be f = Inr (v, b') \<Longrightarrow> b' = b"
    using Suc.IH by blast
  from Suc.prems show ?case
    by (auto simp: Let_def split: if_splits
        dest: max_loop_board[rotated] min_loop_board[rotated] rec)
qed

subsection \<open>The search returns when the depth is within the recursion limit\<close>

lemma max_loop_total:
  assumes "\<And>b a be. \<exists>v. search b a be = Inr (v, b)"
  shows "\<exists>v. max_loop search R ms b alpha beta m = Inr (v, b)"
proof (induction ms arbitrary: alpha m)
  case Nil
  show ?case by simp
next
  case (Cons mv rest)
  from assms obtain e where "search (push R b mv) alpha beta = Inr (e, push R b mv)"
    by blast
  then show ?case
    using Cons.IH by (simp add: pop_push Let_def)
qed

lemma min_loop_total:
  assumes "\<And>b a be. \<exists>v. search b a be = Inr (v, b)"
  shows "\<exists>v. min_loop search R ms b alpha beta m = Inr (v, b)"
proof (induction ms arbitrary: beta m)
  case Nil
  show ?case by simp
next
  case (Cons mv rest)
  from assms obtain e where "search (push R b mv) alpha beta = Inr (e, push R b mv)"
    by blast
  then show ?case
    using Cons.IH by (simp add: pop_push Let_def)
qed

lemma alpha_beta_total:
  "0 \<le> depth \<Longrightarrow> nat depth < limit \<Longrightarrow>
   \<exists>v. alpha_beta limit R b depth alpha beta mx = Inr (v, b)"
proof (induction limit arbitrary: b depth alpha beta mx)
  case 0
  then show ?case by simp
next
  case (Suc limit)
  show ?case
  proof (cases "depth = 0")
    case True
    then show ?thesis by simp
  next
    case False
    with Suc.prems have "0 \<le> depth - 1" "nat (depth - 1) < limit"
      by linarith+
    then have rec: "\<And>f b a be. \<exists>v. alpha_beta limit R b (depth - 1) a be f = Inr (v, b)"
      using Suc.IH by blast
    show ?thesis
      using max_loop_total[of "\<lambda>b a be. alpha_beta limit R b (depth - 1) a be False", OF rec]
            min_loop_total[of "\<lambda>b a be. alpha_beta limit R b (depth - 1) a be True", OF rec]
      by (auto simp: Let_def)
  qed
qed

subsection \<open>Where the returned score comes from\<close>

lemma max_loop_in:
  assumes "\<And>mv a be v b'. mv \<in> set ms \<Longrightarrow> search (push R b mv) a be = Inr (v, b')
             \<Longrightarrow> v \<in> S \<and> b' = push R b mv"
    and "max_loop search R ms b alpha beta m = Inr (v, b')"
    and "m \<in> S \<or> (m = NegInf \<and> ms \<noteq> [])"
  shows "v \<in> S"
  using assms
proof (induction ms arbitrary: alpha m)
  case Nil
  then show ?case by simp
next
  case (Cons mv rest)
  from Cons.prems(2) obtain e b1 where s: "search (push R b mv) alpha beta = Inr (e, b1)"
    by (auto split: sum.splits)
  with Cons.prems(1)[of mv alpha beta e b1] have e: "e \<in> S" and b1: "b1 = push R b mv"
    by simp_all
  from e Cons.prems(3) have m': "max m e \<in> S"
    by (auto simp: max_def)
  show ?case
  proof (cases "beta \<le> max alpha e")
    case True
    with Cons.prems(2) s b1 m' show ?thesis
      by (simp add: pop_push Let_def)
  next
    case False
    with Cons.prems(2) s b1
    have "max_loop search R rest b (max alpha e) beta (max m e) = Inr (v, b')"
      by (simp add: pop_push Let_def)
    moreover have "\<And>mv a be v b'. mv \<in> set rest \<Longrightarrow> search (push R b mv) a be = Inr (v, b')
             \<Longrightarrow> v \<in> S \<and> b' = push R b mv"
      using Cons.prems(1) by (meson list.set_intros(2))
    ultimately show ?thesis
      using Cons.IH[of "max alpha e" "max m e"] m' by blast
  qed
qed

lemma min_loop_in:
  assumes "\<And>mv a be v b'. mv \<in> set ms \<Longrightarrow> search (push R b mv) a be = Inr (v, b')
             \<Longrightarrow> v \<in> S \<and> b' = push R b mv"
    and "min_loop search R ms b alpha beta m = Inr (v, b')"
    and "m \<in> S \<or> (m = PosInf \<and> ms \<noteq> [])"
  shows "v \<in> S"
  using assms
proof (induction ms arbitrary: beta m)
  case Nil
  then show ?case by simp
next
  case (Cons mv rest)
  from Cons.prems(2) obtain e b1 where s: "search (push R b mv) alpha beta = Inr (e, b1)"
    by (auto split: sum.splits)
  with Cons.prems(1)[of mv alpha beta e b1] have e: "e \<in> S" and b1: "b1 = push R b mv"
    by simp_all
  from e Cons.prems(3) have m': "min m e \<in> S"
    by (auto simp: min_def)
  show ?case
  proof (cases "min beta e \<le> alpha")
    case True
    with Cons.prems(2) s b1 m' show ?thesis
      by (simp add: pop_push Let_def)
  next
    case False
    with Cons.prems(2) s b1
    have "min_loop search R rest b alpha (min beta e) (min m e) = Inr (v, b')"
      by (simp add: pop_push Let_def)
    moreover have "\<And>mv a be v b'. mv \<in> set rest \<Longrightarrow> search (push R b mv) a be = Inr (v, b')
             \<Longrightarrow> v \<in> S \<and> b' = push R b mv"
      using Cons.prems(1) by (meson list.set_intros(2))
    ultimately show ?thesis
      using Cons.IH[of "min beta e" "min m e"] m' by blast
  qed
qed

lemma alpha_beta_finite:
  "alpha_beta limit R b depth alpha beta mx = Inr (v, b') \<Longrightarrow> v \<in> range Fin"
proof (induction limit arbitrary: b depth alpha beta mx v b')
  case 0
  then show ?case by simp
next
  case (Suc limit)
  have rec: "\<And>f mv a be v b'. mv \<in> set (legal_moves R (position b)) \<Longrightarrow>
      alpha_beta limit R (push R b mv) (depth - 1) a be f = Inr (v, b')
      \<Longrightarrow> v \<in> range Fin \<and> b' = push R b mv"
  proof
    fix f mv a be v b'
    assume r: "alpha_beta limit R (push R b mv) (depth - 1) a be f = Inr (v, b')"
    from r show "v \<in> range Fin" by (rule Suc.IH)
    from r show "b' = push R b mv" by (rule alpha_beta_board)
  qed
  show ?case
  proof (cases "depth = 0 \<or> is_game_over R (position b) \<or> legal_moves R (position b) = []")
    case True
    with Suc.prems show ?thesis by (auto simp: Let_def split: if_splits)
  next
    case False
    show ?thesis
    proof (cases mx)
      case True
      with False Suc.prems(1)
      have L: "max_loop (\<lambda>b a be. alpha_beta limit R b (depth - 1) a be False) R
              (legal_moves R (position b)) b alpha beta NegInf = Inr (v, b')"
        by (simp add: Let_def)
      show ?thesis
      proof (rule max_loop_in[where S = "range Fin", OF _ L disjI2])
        show "NegInf = NegInf \<and> legal_moves R (position b) \<noteq> []"
          using False by simp
      qed (rule rec)
    next
      case mn: False
      with False Suc.prems(1)
      have L: "min_loop (\<lambda>b a be. alpha_beta limit R b (depth - 1) a be True) R
              (legal_moves R (position b)) b alpha beta PosInf = Inr (v, b')"
        by (simp add: Let_def)
      show ?thesis
      proof (rule min_loop_in[where S = "range Fin", OF _ L disjI2])
        show "PosInf = PosInf \<and> legal_moves R (position b) \<noteq> []"
          using False by simp
      qed (rule rec)
    qed
  qed
qed

lemma positions_within_self: "p \<in> set (positions_within R p n)"
  by (cases n) simp_all

lemma positions_within_child:
  "mv \<in> set (legal_moves R p) \<Longrightarrow> q \<in> set (positions_within R (apply_move R p mv) n)
   \<Longrightarrow> q \<in> set (positions_within R p (Suc n))"
  by auto

lemma alpha_beta_leaf:
  "alpha_beta limit R b depth alpha beta mx = Inr (v, b') \<Longrightarrow> 0 \<le> depth \<Longrightarrow>
   v \<in> (\<lambda>p. Fin (evaluate_position R p)) ` set (positions_within R (position b) (nat depth))"
proof (induction limit arbitrary: b depth alpha beta mx v b')
  case 0
  then show ?case by simp
next
  case (Suc limit)
  let ?S = "(\<lambda>p. Fin (evaluate_position R p)) ` set (positions_within R (position b) (nat depth))"
  show ?case
  proof (cases "depth = 0 \<or> is_game_over R (position b) \<or> legal_moves R (position b) = []")
    case True
    with Suc.prems(1) have v: "v = Fin (evaluate_position R (position b))"
      by (auto simp: Let_def split: if_splits)
    have "position b \<in> set (positions_within R (position b) (nat depth))"
      by (rule positions_within_self)
    then show ?thesis
      unfolding v by (rule imageI)
  next
    case False
    with Suc.prems(2) have d: "0 \<le> depth - 1"
      by simp
    then have n: "nat depth = Suc (nat (depth - 1))"
      by simp
    have rec: "\<And>f mv a be v b'. mv \<in> set (legal_moves R (position b)) \<Longrightarrow>
        alpha_beta limit R (push R b mv) (depth - 1) a be f = Inr (v, b')
        \<Longrightarrow> v \<in> ?S \<and> b' = push R b mv"
    proof
      fix f mv a be v b'
      assume mv: "mv \<in> set (legal_moves R (position b))"
        and r: "alpha_beta limit R (push R b mv) (depth - 1) a be f = Inr (v, b')"
      from Suc.IH[OF r d]
      obtain q where q: "q \<in> set (positions_within R (apply_move R (position b) mv) (nat (depth - 1)))"
        and v: "v = Fin (evaluate_position R q)"
        by (auto simp: position_push)
      from positions_within_child[OF mv q] have "q \<in> set (positions_within R (position b) (nat depth))"
        by (simp only: n)
      with v show "v \<in> ?S" by blast
      from r show "b' = push R b mv" by (rule alpha_beta_board)
    qed
    show ?thesis
    proof (cases mx)
      case True
      with False Suc.prems(1)
      have L: "max_loop (\<lambda>b a be. alpha_beta limit R b (depth - 1) a be False) R
              (legal_moves R (position b)) b alpha beta NegInf = Inr (v, b')"
        by (simp add: Let_def)
      show ?thesis
      proof (rule max_loop_in[where S = ?S, OF _ L disjI2])
        show "NegInf = NegInf \<and> legal_moves R (position b) \<noteq> []"
          using False by simp
      qed (rule rec)
    next
      case mn: False
      with False Suc.prems(1)
      have L: "min_loop (\<lambda>b a be. alpha_beta limit R b (depth - 1) a be True) R
              (legal_moves R (position b)) b alpha beta PosInf = Inr (v, b')"
        by (simp add: Let_def)
      show ?thesis
      proof (rule min_loop_in[where S = ?S, OF _ L disjI2])
        show "PosInf = PosInf \<and> legal_moves R (position b) \<noteq> []"
          using False by simp
      qed (rule rec)
    qed
  qed
qed

subsection \<open>Pruning does not change the score\<close>

lemma fold_max_seed: "fold max xs (max a s) = max a (fold max xs (s::score))"
proof (induction xs arbitrary: s)
  case Nil
  show ?case by simp
next
  case (Cons x xs)
  have "max x (max a s) = max a (max x s)"
    by (rule max.left_commute)
  then show ?case
    using Cons.IH[of "max x s"] by simp
qed

lemma fold_min_seed: "fold min xs (min a s) = min a (fold min xs (s::score))"
proof (induction xs arbitrary: s)
  case Nil
  show ?case by simp
next
  case (Cons x xs)
  have "min x (min a s) = min a (min x s)"
    by (rule min.left_commute)
  then show ?case
    using Cons.IH[of "min x s"] by simp
qed

lemma fold_max_ge: "s \<le> fold max xs (s::score)"
proof (induction xs arbitrary: s)
  case Nil
  show ?case by simp
next
  case (Cons x xs)
  have "s \<le> max x s" by simp
  also have "\<dots> \<le> fold max xs (max x s)" by (rule Cons.IH)
  finally show ?case by simp
qed

lemma fold_min_le: "fold min xs (s::score) \<le> s"
proof (induction xs arbitrary: s)
  case Nil
  show ?case by simp
next
  case (Cons x xs)
  have "fold min xs (min x s) \<le> min x s" by (rule Cons.IH)
  also have "\<dots> \<le> s" by simp
  finally show ?case by simp
qed

lemma agrees_exact: "agrees alpha beta v v"
  by (simp add: agrees_def)

lemma agrees_full: "agrees NegInf PosInf r v \<Longrightarrow> r = v"
  by (cases r) (auto simp: agrees_def less_score_def)

lemma max_step_cut:
  assumes "agrees alpha beta e c" "alpha < beta" "m \<le> alpha" "beta \<le> e"
  shows "agrees alpha beta (max m e) (max c W)"
proof -
  from assms(2-4) have "m \<le> e" by order
  then have "max m e = e" by (rule max_absorb2)
  moreover from assms have "e \<le> c" by (simp add: agrees_def)
  then have "e \<le> max c W" by (simp add: le_max_iff_disj)
  ultimately show ?thesis
    using assms(2,4) by (auto simp: agrees_def)
qed

lemma max_step_low:
  assumes e: "agrees alpha beta e c" and "alpha < beta" "m \<le> W" "e \<le> alpha"
    and IH: "agrees alpha beta r (max e W)"
  shows "agrees alpha beta r (max c W)"
proof -
  from e assms(4) have ce: "c \<le> e" by (simp add: agrees_def)
  show ?thesis
  proof (cases "e \<le> W")
    case True
    with ce have "c \<le> W" by order
    with True have "max e W = W" "max c W = W" by (simp_all add: max_absorb2)
    with IH show ?thesis by simp
  next
    case False
    then have We: "W \<le> e" by simp
    then have "max e W = e" by (rule max_absorb1)
    moreover from We ce have "max c W \<le> e" by simp
    ultimately show ?thesis
      using IH assms(2,4) by (auto simp: agrees_def)
  qed
qed

lemma max_step_mid:
  assumes e: "agrees alpha beta e c" and "alpha < e" "e < beta"
    and IH: "agrees e beta r (max e W)"
  shows "agrees alpha beta r (max c W)"
proof -
  from e assms(2,3) have "e = c" by (simp add: agrees_def)
  with IH have IH': "agrees c beta r (max c W)" by simp
  have "c \<le> max c W" by simp
  with IH' assms(2) \<open>e = c\<close> show ?thesis
    by (auto simp: agrees_def)
qed

lemma min_step_cut:
  assumes "agrees alpha beta e c" "alpha < beta" "beta \<le> m" "e \<le> alpha"
  shows "agrees alpha beta (min m e) (min c W)"
proof -
  from assms(2-4) have "e \<le> m" by order
  then have "min m e = e" by (rule min_absorb2)
  moreover from assms have "c \<le> e" by (simp add: agrees_def)
  then have "min c W \<le> e" by (simp add: min_le_iff_disj)
  ultimately show ?thesis
    using assms(2,4) by (auto simp: agrees_def)
qed

lemma min_step_high:
  assumes e: "agrees alpha beta e c" and "alpha < beta" "beta \<le> e"
    and IH: "agrees alpha beta r (min e W)"
  shows "agrees alpha beta r (min c W)"
proof -
  from e assms(3) have ce: "e \<le> c" by (simp add: agrees_def)
  show ?thesis
  proof (cases "W \<le> e")
    case True
    with ce have "W \<le> c" by order
    with True have "min e W = W" "min c W = W" by (simp_all add: min_absorb2)
    with IH show ?thesis by simp
  next
    case False
    then have We: "e \<le> W" by simp
    then have "min e W = e" by (rule min_absorb1)
    moreover from We ce have "e \<le> min c W" by simp
    ultimately show ?thesis
      using IH assms(2,3) by (auto simp: agrees_def)
  qed
qed

lemma min_step_mid:
  assumes e: "agrees alpha beta e c" and "alpha < e" "e < beta"
    and IH: "agrees alpha e r (min e W)"
  shows "agrees alpha beta r (min c W)"
proof -
  from e assms(2,3) have "e = c" by (simp add: agrees_def)
  with IH have IH': "agrees alpha c r (min c W)" by simp
  have "min c W \<le> c" by simp
  with IH' assms(3) \<open>e = c\<close> show ?thesis
    by (auto simp: agrees_def)
qed

lemma max_loop_agrees:
  assumes "\<And>mv a be e b'. mv \<in> set ms \<Longrightarrow> a < be \<Longrightarrow>
             search (push R b mv) a be = Inr (e, b') \<Longrightarrow>
             agrees a be e (g mv) \<and> b' = push R b mv"
    and "max_loop search R ms b alpha beta m = Inr (r, b')"
    and "alpha < beta" and "m \<le> alpha"
  shows "agrees alpha beta r (fold max (map g ms) m)"
  using assms
proof (induction ms arbitrary: alpha m)
  case Nil
  then show ?case by (simp add: agrees_exact)
next
  case (Cons mv rest)
  from Cons.prems(2) obtain e b1 where s: "search (push R b mv) alpha beta = Inr (e, b1)"
    by (auto split: sum.splits)
  with Cons.prems(1)[of mv alpha beta e b1] Cons.prems(3)
  have e: "agrees alpha beta e (g mv)" and b1: "b1 = push R b mv"
    by simp_all
  let ?W = "fold max (map g rest) m"
  have V: "fold max (map g (mv # rest)) m = max (g mv) ?W"
    by (simp add: fold_max_seed)
  have W: "m \<le> ?W"
    by (rule fold_max_ge)
  show ?case
  proof (cases "beta \<le> max alpha e")
    case True
    with Cons.prems(2) s b1 have r: "r = max m e"
      by (simp add: pop_push Let_def)
    from True Cons.prems(3) have "beta \<le> e"
      by (simp add: max_def split: if_splits)
    with e Cons.prems(3,4) show ?thesis
      unfolding V r by (rule max_step_cut)
  next
    case False
    with Cons.prems(2) s b1
    have L: "max_loop search R rest b (max alpha e) beta (max m e) = Inr (r, b')"
      by (simp add: pop_push Let_def)
    have S: "\<And>mv a be e b'. mv \<in> set rest \<Longrightarrow> a < be \<Longrightarrow>
             search (push R b mv) a be = Inr (e, b') \<Longrightarrow>
             agrees a be e (g mv) \<and> b' = push R b mv"
      using Cons.prems(1) by (meson list.set_intros(2))
    from False have ab: "max alpha e < beta"
      by (simp add: not_le)
    then have eb: "e < beta"
      by simp
    from Cons.prems(4) have "max m e \<le> max alpha e"
      by (intro max.mono) simp_all
    from Cons.IH[OF S L ab this]
    have IH: "agrees (max alpha e) beta r (fold max (map g rest) (max m e))" .
    have V': "fold max (map g rest) (max m e) = max e ?W"
      by (simp add: fold_max_seed max.commute)
    show ?thesis
    proof (cases "e \<le> alpha")
      case True
      then have "max alpha e = alpha" by (rule max_absorb1)
      with IH have "agrees alpha beta r (max e ?W)" by (simp add: V')
      with e Cons.prems(3) W True show ?thesis
        unfolding V by (rule max_step_low)
    next
      case False
      then have ae: "alpha < e" by simp
      then have "max alpha e = e" by (simp add: max_absorb2)
      with IH have "agrees e beta r (max e ?W)" by (simp add: V')
      with e ae eb show ?thesis
        unfolding V by (rule max_step_mid)
    qed
  qed
qed

lemma min_loop_agrees:
  assumes "\<And>mv a be e b'. mv \<in> set ms \<Longrightarrow> a < be \<Longrightarrow>
             search (push R b mv) a be = Inr (e, b') \<Longrightarrow>
             agrees a be e (g mv) \<and> b' = push R b mv"
    and "min_loop search R ms b alpha beta m = Inr (r, b')"
    and "alpha < beta" and "beta \<le> m"
  shows "agrees alpha beta r (fold min (map g ms) m)"
  using assms
proof (induction ms arbitrary: beta m)
  case Nil
  then show ?case by (simp add: agrees_exact)
next
  case (Cons mv rest)
  from Cons.prems(2) obtain e b1 where s: "search (push R b mv) alpha beta = Inr (e, b1)"
    by (auto split: sum.splits)
  with Cons.prems(1)[of mv alpha beta e b1] Cons.prems(3)
  have e: "agrees alpha beta e (g mv)" and b1: "b1 = push R b mv"
    by simp_all
  let ?W = "fold min (map g rest) m"
  have V: "fold min (map g (mv # rest)) m = min (g mv) ?W"
    by (simp add: fold_min_seed)
  show ?case
  proof (cases "min beta e \<le> alpha")
    case True
    with Cons.prems(2) s b1 have r: "r = min m e"
      by (simp add: pop_push Let_def)
    from True Cons.prems(3) have "e \<le> alpha"
      by (simp add: min_def split: if_splits)
    with e Cons.prems(3,4) show ?thesis
      unfolding V r by (rule min_step_cut)
  next
    case False
    with Cons.prems(2) s b1
    have L: "min_loop search R rest b alpha (min beta e) (min m e) = Inr (r, b')"
      by (simp add: pop_push Let_def)
    have S: "\<And>mv a be e b'. mv \<in> set rest \<Longrightarrow> a < be \<Longrightarrow>
             search (push R b mv) a be = Inr (e, b') \<Longrightarrow>
             agrees a be e (g mv) \<and> b' = push R b mv"
      using Cons.prems(1) by (meson list.set_intros(2))
    from False have ab: "alpha < min beta e"
      by (simp add: not_le)
    then have ae: "alpha < e"
      by simp
    from Cons.prems(4) have "min beta e \<le> min m e"
      by (intro min.mono) simp_all
    from Cons.IH[OF S L ab this]
    have IH: "agrees alpha (min beta e) r (fold min (map g rest) (min m e))" .
    have V': "fold min (map g rest) (min m e) = min e ?W"
      by (simp add: fold_min_seed min.commute)
    show ?thesis
    proof (cases "beta \<le> e")
      case True
      then have "min beta e = beta" by (rule min_absorb1)
      with IH have "agrees alpha beta r (min e ?W)" by (simp add: V')
      with e Cons.prems(3) True show ?thesis
        unfolding V by (rule min_step_high)
    next
      case False
      then have eb: "e < beta" by simp
      then have "min beta e = e" by (simp add: min_absorb2)
      with IH have "agrees alpha e r (min e ?W)" by (simp add: V')
      with e ae eb show ?thesis
        unfolding V by (rule min_step_mid)
    qed
  qed
qed

lemma alpha_beta_agrees:
  "alpha_beta limit R b depth alpha beta mx = Inr (r, b') \<Longrightarrow> 0 \<le> depth \<Longrightarrow> alpha < beta \<Longrightarrow>
   agrees alpha beta r (minimax R (nat depth) (position b) mx)"
proof (induction limit arbitrary: b depth alpha beta mx r b')
  case 0
  then show ?case by simp
next
  case (Suc limit)
  show ?case
  proof (cases "depth = 0")
    case True
    with Suc.prems(1) show ?thesis by (auto simp: agrees_exact)
  next
    case pos: False
    with Suc.prems(2) have d: "0 \<le> depth - 1"
      by simp
    then have n: "nat depth = Suc (nat (depth - 1))"
      by simp
    show ?thesis
    proof (cases "is_game_over R (position b) \<or> legal_moves R (position b) = []")
      case True
      with Suc.prems(1) have "r = Fin (evaluate_position R (position b))"
        by (auto simp: Let_def split: if_splits)
      with True show ?thesis
        unfolding n by (simp add: agrees_exact)
    next
      case False
      have rec: "\<And>f mv a be e b'. mv \<in> set (legal_moves R (position b)) \<Longrightarrow> a < be \<Longrightarrow>
          alpha_beta limit R (push R b mv) (depth - 1) a be f = Inr (e, b') \<Longrightarrow>
          agrees a be e (minimax R (nat (depth - 1)) (apply_move R (position b) mv) f)
            \<and> b' = push R b mv"
      proof
        fix f mv a be e b'
        assume w: "a < be"
          and c: "alpha_beta limit R (push R b mv) (depth - 1) a be f = Inr (e, b')"
        from Suc.IH[OF c d w]
        show "agrees a be e (minimax R (nat (depth - 1)) (apply_move R (position b) mv) f)"
          by (simp add: position_push)
        from c show "b' = push R b mv" by (rule alpha_beta_board)
      qed
      show ?thesis
      proof (cases mx)
        case True
        with False pos Suc.prems(1)
        have L: "max_loop (\<lambda>b a be. alpha_beta limit R b (depth - 1) a be False) R
                (legal_moves R (position b)) b alpha beta NegInf = Inr (r, b')"
          by (simp add: Let_def)
        have "agrees alpha beta r
                (fold max (map (\<lambda>mv. minimax R (nat (depth - 1)) (apply_move R (position b) mv) False)
                   (legal_moves R (position b))) NegInf)"
          by (rule max_loop_agrees[OF rec L Suc.prems(3)]) simp_all
        with True False show ?thesis
          unfolding n by simp
      next
        case mn: False
        with False pos Suc.prems(1)
        have L: "min_loop (\<lambda>b a be. alpha_beta limit R b (depth - 1) a be True) R
                (legal_moves R (position b)) b alpha beta PosInf = Inr (r, b')"
          by (simp add: Let_def)
        have "agrees alpha beta r
                (fold min (map (\<lambda>mv. minimax R (nat (depth - 1)) (apply_move R (position b) mv) True)
                   (legal_moves R (position b))) PosInf)"
          by (rule min_loop_agrees[OF rec L Suc.prems(3)]) simp_all
        with mn False show ?thesis
          unfolding n by simp
      qed
    qed
  qed
qed

subsection \<open>The root loops\<close>

lemma uci_root_loop_board:
  "uci_root_loop limit R clock st budget depth moves k b bm bs = Inr (bm', bs', b') \<Longrightarrow> b' = b"
proof (induction moves arbitrary: k bm bs)
  case Nil
  then show ?case by simp
next
  case (Cons mv rest)
  show ?case
  proof (cases "clock k - st > budget")
    case True
    with Cons.prems show ?thesis by simp
  next
    case False
    with Cons.prems obtain sc b2 where
      ab: "alpha_beta limit R (push R b mv) (depth - 1) NegInf PosInf
             (turn R (position (push R b mv)) = Black) = Inr (sc, b2)"
      by (auto simp: Let_def split: sum.splits)
    then have b2: "b2 = push R b mv" by (rule alpha_beta_board)
    from Cons.prems False ab b2 show ?thesis
      by (auto simp: Let_def pop_push split: if_splits dest: Cons.IH)
  qed
qed

lemma v3_root_loop_board:
  "v3_root_loop limit R clock st budget depth moves k b acc = Inr (ms, b') \<Longrightarrow> b' = b"
proof (induction moves arbitrary: k acc)
  case Nil
  then show ?case by simp
next
  case (Cons mv rest)
  show ?case
  proof (cases "clock k - st > budget")
    case True
    with Cons.prems show ?thesis by simp
  next
    case False
    with Cons.prems obtain sc b2 where
      ab: "alpha_beta limit R (push R b mv) (depth - 1) NegInf PosInf
             (turn R (position (push R b mv)) = Black) = Inr (sc, b2)"
      by (auto simp: Let_def split: sum.splits)
    then have b2: "b2 = push R b mv" by (rule alpha_beta_board)
    from Cons.prems False ab b2 show ?thesis
      by (auto simp: Let_def pop_push dest: Cons.IH)
  qed
qed

lemma v3_root_loop_acc:
  "v3_root_loop limit R clock st budget depth moves k b acc =
     (case v3_root_loop limit R clock st budget depth moves k b [] of
        Inl e \<Rightarrow> Inl e
      | Inr (ms, b') \<Rightarrow> Inr (acc @ ms, b'))"
proof (induction moves arbitrary: k b acc)
  case Nil
  show ?case by simp
next
  case (Cons mv rest)
  show ?case
    by (simp add: Let_def Cons.IH[of _ _ "acc @ [x]" for x] Cons.IH[of _ _ "[x]" for x]
        split: sum.splits prod.splits)
qed

lemma uci_root_loop_scores:
  "v3_root_loop limit R clock st budget depth moves k b [] = Inr (ms, sb) \<Longrightarrow>
   uci_root_loop limit R clock st budget depth moves k b bm bs =
     (let best = fold (better (turn R (position b))) ms (bm, bs) in Inr (fst best, snd best, b))"
proof (induction moves arbitrary: k bm bs ms)
  case Nil
  then show ?case by auto
next
  case (Cons mv rest)
  show ?case
  proof (cases "clock k - st > budget")
    case True
    with Cons.prems show ?thesis by auto
  next
    case False
    with Cons.prems obtain sc b2 where
      ab: "alpha_beta limit R (push R b mv) (depth - 1) NegInf PosInf
             (turn R (position (push R b mv)) = Black) = Inr (sc, b2)"
      by (auto simp: Let_def split: sum.splits)
    then have b2: "b2 = push R b mv" by (rule alpha_beta_board)
    from Cons.prems False ab b2
    have "v3_root_loop limit R clock st budget depth rest (Suc k) b [(mv, sc)] = Inr (ms, sb)"
      by (simp add: Let_def pop_push)
    then obtain ms' where
      r: "v3_root_loop limit R clock st budget depth rest (Suc k) b [] = Inr (ms', sb)"
      and ms: "ms = (mv, sc) # ms'"
      by (subst (asm) v3_root_loop_acc) (auto split: sum.splits)
    note IH = Cons.IH[OF r]
    from False ab b2 show ?thesis
      by (simp add: Let_def pop_push ms IH better_def)
  qed
qed

lemma v3_root_loop_moves:
  "v3_root_loop limit R clock st budget depth moves k b [] = Inr (ms, sb) \<Longrightarrow>
   set (map fst ms) \<subseteq> set moves"
proof (induction moves arbitrary: k ms)
  case Nil
  then show ?case by auto
next
  case (Cons mv rest)
  show ?case
  proof (cases "clock k - st > budget")
    case True
    with Cons.prems show ?thesis by auto
  next
    case False
    with Cons.prems obtain sc b2 where
      ab: "alpha_beta limit R (push R b mv) (depth - 1) NegInf PosInf
             (turn R (position (push R b mv)) = Black) = Inr (sc, b2)"
      by (auto simp: Let_def split: sum.splits)
    then have b2: "b2 = push R b mv" by (rule alpha_beta_board)
    from Cons.prems False ab b2
    have "v3_root_loop limit R clock st budget depth rest (Suc k) b [(mv, sc)] = Inr (ms, sb)"
      by (simp add: Let_def pop_push)
    then obtain ms' where
      r: "v3_root_loop limit R clock st budget depth rest (Suc k) b [] = Inr (ms', sb)"
      and ms: "ms = (mv, sc) # ms'"
      by (subst (asm) v3_root_loop_acc) (auto split: sum.splits)
    from Cons.IH[OF r] ms show ?thesis by auto
  qed
qed

lemma v3_root_loop_finite:
  "v3_root_loop limit R clock st budget depth moves k b [] = Inr (ms, sb) \<Longrightarrow>
   set (map snd ms) \<subseteq> range Fin"
proof (induction moves arbitrary: k ms)
  case Nil
  then show ?case by auto
next
  case (Cons mv rest)
  show ?case
  proof (cases "clock k - st > budget")
    case True
    with Cons.prems show ?thesis by auto
  next
    case False
    with Cons.prems obtain sc b2 where
      ab: "alpha_beta limit R (push R b mv) (depth - 1) NegInf PosInf
             (turn R (position (push R b mv)) = Black) = Inr (sc, b2)"
      by (auto simp: Let_def split: sum.splits)
    then have b2: "b2 = push R b mv" by (rule alpha_beta_board)
    from ab have sc: "sc \<in> range Fin" by (rule alpha_beta_finite)
    from Cons.prems False ab b2
    have "v3_root_loop limit R clock st budget depth rest (Suc k) b [(mv, sc)] = Inr (ms, sb)"
      by (simp add: Let_def pop_push)
    then obtain ms' where
      r: "v3_root_loop limit R clock st budget depth rest (Suc k) b [] = Inr (ms', sb)"
      and ms: "ms = (mv, sc) # ms'"
      by (subst (asm) v3_root_loop_acc) (auto split: sum.splits)
    from Cons.IH[OF r] ms sc show ?thesis by auto
  qed
qed

subsection \<open>Choosing among the searched root moves\<close>

lemma fold_better_White:
  "fold (better White) ms (bm, bs) =
     (let M = fold max (map snd ms) bs
      in if M = bs then (bm, bs) else (map_option fst (find (\<lambda>x. snd x = M) ms), M))"
proof (induction ms arbitrary: bm bs)
  case Nil
  show ?case by simp
next
  case (Cons x rest)
  let ?M = "fold max (map snd rest) (max (snd x) bs)"
  show ?case
  proof (cases "bs < snd x")
    case True
    then have mx: "max (snd x) bs = snd x" by (simp add: max_absorb1 less_imp_le)
    have ge: "snd x \<le> fold max (map snd rest) (snd x)" by (rule fold_max_ge)
    with True have ne: "fold max (map snd rest) (snd x) \<noteq> bs" by auto
    from True have step: "better White x (bm, bs) = (Some (fst x), snd x)"
      by (simp add: better_def)
    from ne show ?thesis
      by (simp add: step Cons.IH Let_def mx)
  next
    case False
    then have mx: "max (snd x) bs = bs" by (simp add: max_absorb2 not_less)
    have ge: "bs \<le> fold max (map snd rest) bs" by (rule fold_max_ge)
    with False have "fold max (map snd rest) bs \<noteq> bs \<Longrightarrow> snd x \<noteq> fold max (map snd rest) bs"
      by auto
    moreover from False have step: "better White x (bm, bs) = (bm, bs)"
      by (simp add: better_def)
    ultimately show ?thesis
      by (simp add: Cons.IH Let_def mx)
  qed
qed

lemma fold_better_Black:
  "fold (better Black) ms (bm, bs) =
     (let M = fold min (map snd ms) bs
      in if M = bs then (bm, bs) else (map_option fst (find (\<lambda>x. snd x = M) ms), M))"
proof (induction ms arbitrary: bm bs)
  case Nil
  show ?case by simp
next
  case (Cons x rest)
  show ?case
  proof (cases "snd x < bs")
    case True
    then have mx: "min (snd x) bs = snd x" by (simp add: min_absorb1 less_imp_le)
    have ge: "fold min (map snd rest) (snd x) \<le> snd x" by (rule fold_min_le)
    with True have ne: "fold min (map snd rest) (snd x) \<noteq> bs" by auto
    from True have step: "better Black x (bm, bs) = (Some (fst x), snd x)"
      by (simp add: better_def)
    from ne show ?thesis
      by (simp add: step Cons.IH Let_def mx)
  next
    case False
    then have mx: "min (snd x) bs = bs" by (simp add: min_absorb2 not_less)
    have ge: "fold min (map snd rest) bs \<le> bs" by (rule fold_min_le)
    with False have "fold min (map snd rest) bs \<noteq> bs \<Longrightarrow> snd x \<noteq> fold min (map snd rest) bs"
      by auto
    moreover from False have step: "better Black x (bm, bs) = (bm, bs)"
      by (simp add: better_def)
    ultimately show ?thesis
      by (simp add: Cons.IH Let_def mx)
  qed
qed

lemma fold_max_Fin:
  "xs \<noteq> [] \<Longrightarrow> set xs \<subseteq> range Fin \<Longrightarrow> fold max xs NegInf \<noteq> NegInf"
proof -
  assume "xs \<noteq> []" "set xs \<subseteq> range Fin"
  then obtain i rest where xs: "xs = Fin i # rest" by (cases xs) auto
  have "Fin i \<le> fold max rest (Fin i)" by (rule fold_max_ge)
  then show ?thesis by (auto simp: xs)
qed

lemma fold_min_Fin:
  "xs \<noteq> [] \<Longrightarrow> set xs \<subseteq> range Fin \<Longrightarrow> fold min xs PosInf \<noteq> PosInf"
proof -
  assume "xs \<noteq> []" "set xs \<subseteq> range Fin"
  then obtain i rest where xs: "xs = Fin i # rest" by (cases xs) auto
  have "fold min rest (Fin i) \<le> Fin i" by (rule fold_min_le)
  then show ?thesis by (auto simp: xs)
qed

lemma fold_better_first_best:
  assumes "set (map snd ms) \<subseteq> range Fin"
  shows "fst (fold (better c) ms (None, if c = White then NegInf else PosInf)) = first_best c ms"
proof (cases "ms = []")
  case True
  then show ?thesis by (simp add: first_best_def)
next
  case False
  then have ne: "map snd ms \<noteq> []" by simp
  show ?thesis
  proof (cases c)
    case White
    from fold_max_Fin[OF ne assms] show ?thesis
      by (simp add: White fold_better_White first_best_def Let_def)
  next
    case Black
    from fold_min_Fin[OF ne assms] show ?thesis
      by (simp add: Black fold_better_Black first_best_def Let_def)
  qed
qed

lemma py_max_first:
  fixes key :: "'a \<Rightarrow> score"
  shows "find (\<lambda>z. key z = fold max (map key rest) (key best)) (best # rest) =
     Some (fold (\<lambda>y best. if key best < key y then y else best) rest best)"
proof (induction rest arbitrary: best)
  case Nil
  show ?case by simp
next
  case (Cons y rest)
  show ?case
  proof (cases "key best < key y")
    case True
    then have mx: "max (key y) (key best) = key y" by (simp add: max_absorb1 less_imp_le)
    have "key y \<le> fold max (map key rest) (key y)" by (rule fold_max_ge)
    with True have "key best \<noteq> fold max (map key rest) (key y)" by auto
    with True Cons.IH[of y] show ?thesis
      by (simp add: mx)
  next
    case False
    then have mx: "max (key y) (key best) = key best" by (simp add: max_absorb2 not_less)
    have "key best \<le> fold max (map key rest) (key best)" by (rule fold_max_ge)
    with False have "key best \<noteq> fold max (map key rest) (key best)
        \<Longrightarrow> key y \<noteq> fold max (map key rest) (key best)" by auto
    with False Cons.IH[of best] show ?thesis
      by (auto simp: mx)
  qed
qed

lemma py_min_first:
  fixes key :: "'a \<Rightarrow> score"
  shows "find (\<lambda>z. key z = fold min (map key rest) (key best)) (best # rest) =
     Some (fold (\<lambda>y best. if key y < key best then y else best) rest best)"
proof (induction rest arbitrary: best)
  case Nil
  show ?case by simp
next
  case (Cons y rest)
  show ?case
  proof (cases "key y < key best")
    case True
    then have mx: "min (key y) (key best) = key y" by (simp add: min_absorb1 less_imp_le)
    have "fold min (map key rest) (key y) \<le> key y" by (rule fold_min_le)
    with True have "key best \<noteq> fold min (map key rest) (key y)" by auto
    with True Cons.IH[of y] show ?thesis
      by (simp add: mx)
  next
    case False
    then have mx: "min (key y) (key best) = key best" by (simp add: min_absorb2 not_less)
    have "fold min (map key rest) (key best) \<le> key best" by (rule fold_min_le)
    with False have "key best \<noteq> fold min (map key rest) (key best)
        \<Longrightarrow> key y \<noteq> fold min (map key rest) (key best)" by auto
    with False Cons.IH[of best] show ?thesis
      by (auto simp: mx)
  qed
qed

lemma find_Some_mem: "find P xs = Some x \<Longrightarrow> x \<in> set xs"
  by (induction xs) (auto split: if_splits)

lemma py_max_min_first_best:
  assumes "ms \<noteq> []"
  shows "\<exists>best. (if c = White then py_max snd ms else py_min snd ms) = Inr best
           \<and> first_best c ms = Some (fst best) \<and> best \<in> set ms"
proof -
  from assms obtain x rest where ms: "ms = x # rest" by (cases ms) auto
  show ?thesis
  proof (cases c)
    case White
    let ?r = "fold (\<lambda>y best. if snd best < snd y then y else best) rest x"
    have f: "find (\<lambda>z. snd z = fold max (map snd rest) (snd x)) (x # rest) = Some ?r"
      by (rule py_max_first)
    then have "?r \<in> set ms"
      unfolding ms by (rule find_Some_mem)
    with f show ?thesis
      by (simp add: White ms py_max_def first_best_def)
  next
    case Black
    let ?r = "fold (\<lambda>y best. if snd y < snd best then y else best) rest x"
    have f: "find (\<lambda>z. snd z = fold min (map snd rest) (snd x)) (x # rest) = Some ?r"
      by (rule py_min_first)
    then have "?r \<in> set ms"
      unfolding ms by (rule find_Some_mem)
    with f show ?thesis
      by (simp add: Black ms py_min_def first_best_def)
  qed
qed

lemma uci_root_loop_move:
  "uci_root_loop limit R clock st budget depth moves k b bm bs = Inr (bm', bs', b') \<Longrightarrow>
   bm' = bm \<or> (\<exists>m \<in> set moves. bm' = Some m)"
proof (induction moves arbitrary: k bm bs)
  case Nil
  then show ?case by simp
next
  case (Cons mv rest)
  show ?case
  proof (cases "clock k - st > budget")
    case True
    with Cons.prems show ?thesis by simp
  next
    case False
    with Cons.prems obtain sc b2 where
      ab: "alpha_beta limit R (push R b mv) (depth - 1) NegInf PosInf
             (turn R (position (push R b mv)) = Black) = Inr (sc, b2)"
      by (auto simp: Let_def split: sum.splits)
    then have b2: "b2 = push R b mv" by (rule alpha_beta_board)
    from Cons.prems False ab b2
    consider "uci_root_loop limit R clock st budget depth rest (Suc k) b (Some mv) sc
                = Inr (bm', bs', b')"
      | "uci_root_loop limit R clock st budget depth rest (Suc k) b bm bs = Inr (bm', bs', b')"
      by (auto simp: Let_def pop_push split: if_splits)
    then show ?thesis
    proof cases
      case 1
      from Cons.IH[OF 1] show ?thesis by auto
    next
      case 2
      from Cons.IH[OF 2] show ?thesis by auto
    qed
  qed
qed

subsection \<open>An expired time limit\<close>

lemma uci_expired_None:
  "legal_moves R (position board) \<noteq> [] \<Longrightarrow> clock 1 - clock 0 > budget \<Longrightarrow>
   uci_find_best_move limit R clock board depth budget = Inr (None, board)"
  by (cases "legal_moves R (position board)") (simp_all add: uci_find_best_move_def)

lemma v3_expired_first:
  "legal_moves R (position board) \<noteq> [] \<Longrightarrow> clock 1 - clock 0 > budget \<Longrightarrow>
   v3_find_best_move limit R clock board depth budget
     = Inr (Some (hd (legal_moves R (position board))))"
  by (cases "legal_moves R (position board)")
     (simp_all add: v3_find_best_move_def first_or_None_def)

subsection \<open>The FEN words of a position command\<close>

lemma slice_to_last:
  "slice xs 2 (- 1) = drop 2 (butlast xs)"
proof -
  have a: "slice_bound (length xs) (- 1) = length xs - 1"
    by (simp add: slice_bound_def)
  have b: "drop (slice_bound (length xs) 2) ys = drop 2 ys" if "length ys \<le> length xs" for ys :: "'a list"
    using that by (cases "2 \<le> length xs") (simp_all add: slice_bound_def)
  show ?thesis
    unfolding slice_def a by (simp add: b butlast_conv_take)
qed

lemma position_fen_without_moves:
  "''moves'' \<notin> set parts \<Longrightarrow> position_fen parts = (join '' '' (drop 2 (butlast parts)), [])"
  unfolding position_fen_def Let_def by (simp only: if_False slice_to_last)

subsection \<open>Mirrored positions\<close>

lemma fold_square_step:
  "(case fold (square_step R p) sqs acc of (m, s) \<Rightarrow> m + s)
     = fst acc + snd acc + sum_list (map (contribution R p) sqs)"
proof (induction sqs arbitrary: acc)
  case Nil
  show ?case by (simp add: case_prod_unfold)
next
  case (Cons sq sqs)
  have "fst (square_step R p sq acc) + snd (square_step R p sq acc)
          = fst acc + snd acc + contribution R p sq"
    by (simp add: square_step_def contribution_def Let_def split: option.splits)
  then show ?case
    by (simp add: Cons.IH)
qed

lemma evaluate_position_sum:
  "\<not> is_checkmate R p \<Longrightarrow> \<not> is_stalemate R p \<Longrightarrow> \<not> is_insufficient_material R p \<Longrightarrow>
   evaluate_position R p =
     (if turn R p = White then sum_list (map (contribution R p) SQUARES)
      else - sum_list (map (contribution R p) SQUARES))"
  using fold_square_step[of R p SQUARES "(0, 0)"]
  by (simp add: evaluate_position_def Let_def case_prod_unfold)

lemma square_mirror_range: "sq < 64 \<Longrightarrow> square_mirror sq < 64"
proof -
  have "list_all (\<lambda>sq. square_mirror sq < 64) [0..<64]"
    by code_simp
  then show "sq < 64 \<Longrightarrow> square_mirror sq < 64"
    by (simp add: list_all_iff)
qed

lemma square_mirror_twice: "square_mirror (square_mirror sq) = sq"
  by (simp add: square_mirror_def xor.assoc)

lemma mirrored_contribution:
  assumes "mirrored R p q" and "sq < 64"
  shows "contribution R q sq = - contribution R p (square_mirror sq)"
proof -
  from assms have pa: "piece_at R q sq = map_option swap_color (piece_at R p (square_mirror sq))"
    by (simp add: mirrored_def SQUARES_def list_all_iff)
  show ?thesis
    by (cases "piece_at R p (square_mirror sq)")
       (simp_all add: contribution_def pa swap_color_def square_mirror_twice)
qed

lemma sum_mirror:
  fixes f :: "nat \<Rightarrow> int"
  shows "sum_list (map (\<lambda>sq. f (square_mirror sq)) SQUARES) = sum_list (map f SQUARES)"
proof -
  have "(\<Sum>sq = 0..<64. f (square_mirror sq)) = (\<Sum>sq = 0..<64. f sq)"
    by (rule sum.reindex_bij_witness[of _ square_mirror square_mirror])
       (simp_all add: square_mirror_twice square_mirror_range)
  then show ?thesis
    by (simp add: SQUARES_def interv_sum_list_conv_sum_set_nat)
qed

lemma mirrored_same_score:
  assumes "mirrored R p q"
    and "\<not> is_checkmate R p" "\<not> is_stalemate R p" "\<not> is_insufficient_material R p"
    and "\<not> is_checkmate R q" "\<not> is_stalemate R q" "\<not> is_insufficient_material R q"
  shows "evaluate_position R q = evaluate_position R p"
proof -
  have m: "map (contribution R q) SQUARES = map (\<lambda>sq. - contribution R p (square_mirror sq)) SQUARES"
    using mirrored_contribution[OF assms(1)] by (simp add: SQUARES_def)
  have "sum_list (map (contribution R q) SQUARES)
      = - sum_list (map (\<lambda>sq. contribution R p (square_mirror sq)) SQUARES)"
    unfolding m by (simp add: uminus_sum_list_map comp_def)
  also have "\<dots> = - sum_list (map (contribution R p) SQUARES)"
    by (simp only: sum_mirror)
  finally have s: "sum_list (map (contribution R q) SQUARES)
      = - sum_list (map (contribution R p) SQUARES)" .
  from assms(1) have t: "turn R q \<noteq> turn R p"
    by (simp add: mirrored_def)
  show ?thesis
    using t s by (cases "turn R p"; cases "turn R q")
      (simp_all add: evaluate_position_sum assms)
qed

section \<open>The claims\<close>

text \<open>
  C1 (as the code has it). In a position where the side to move is checkmated,
  \<open>evaluate_position\<close> returns -99999 when that side is White and +99999 when it is
  Black: the mate score is counted from White's side, whoever is to move.
\<close>

theorem checkmate_score_white_centred:
  "is_checkmate R p \<Longrightarrow>
   evaluate_position R p = (if turn R p = White then - 99999 else 99999)"
  by (simp add: evaluate_position_def)

theorem checkmate_score_white_centred_witness:
  "is_checkmate tree_rules white_mated \<and> turn tree_rules white_mated = White \<and>
   evaluate_position tree_rules white_mated = - 99999"
proof -
  have h: "is_checkmate tree_rules white_mated"
    by code_simp
  have t: "turn tree_rules white_mated = White"
    by code_simp
  from checkmate_score_white_centred[OF h] h t show ?thesis
    by simp
qed

text \<open>
  C1 as stated fails: with Black to move and mated (white rook a8, white king g6, black king
  h8) the score is +99999, not -99999.
\<close>

theorem checkmate_score_black_mated:
  "is_checkmate tree_rules black_mated \<and> turn tree_rules black_mated = Black \<and>
   evaluate_position tree_rules black_mated \<noteq> - 99999"
  by code_simp

text \<open>
  C2. With the full window, \<open>alpha_beta\<close> returns the score of the unpruned minimax of the
  same tree with the same evaluator at the leaves, for every position, every depth from 0
  on and either kind of root node, as long as the depth is within the recursion limit.
\<close>

theorem alpha_beta_full_window_minimax:
  assumes "0 \<le> depth" and "nat depth < limit"
  shows "alpha_beta limit R board depth NegInf PosInf maximizing_player =
           Inr (minimax R (nat depth) (position board) maximizing_player, board)"
proof -
  from alpha_beta_total[OF assms] obtain v where
    r: "alpha_beta limit R board depth NegInf PosInf maximizing_player = Inr (v, board)"
    by blast
  have "NegInf < PosInf"
    by (simp add: less_score_def)
  with r assms(1) have "agrees NegInf PosInf v (minimax R (nat depth) (position board) maximizing_player)"
    by (rule alpha_beta_agrees)
  then have "v = minimax R (nat depth) (position board) maximizing_player"
    by (rule agrees_full)
  with r show ?thesis by simp
qed

theorem alpha_beta_full_window_minimax_witness:
  "alpha_beta 2 tree_rules (fresh_board kp_root) 1 NegInf PosInf True =
     Inr (minimax tree_rules (nat 1) (position (fresh_board kp_root)) True, fresh_board kp_root)
   \<and> minimax tree_rules (nat 1) (position (fresh_board kp_root)) True = Fin (- 115)"
proof -
  have "minimax tree_rules (nat 1) (position (fresh_board kp_root)) True = Fin (- 115)"
    by code_simp
  moreover have "(0::int) \<le> 1" "nat 1 < 2"
    by simp_all
  note alpha_beta_full_window_minimax[OF this, of tree_rules "fresh_board kp_root" True]
  ultimately show ?thesis by simp
qed

text \<open>
  C3. Whenever \<open>alpha_beta\<close> or \<open>find_best_move\<close> returns, the board it was given is back
  in the state it had at the call, on every path: cutoff, time limit, no legal move. In
  \<^verbatim>\<open>chess_engine_v3.py\<close> the loop works on a copy, which it restores in the same way.
\<close>

theorem board_restored_on_return:
  "(alpha_beta limit R board depth alpha beta maximizing_player = Inr (v, board')
      \<longrightarrow> board' = board) \<and>
   (uci_find_best_move limit R clock board depth time_limit = Inr (mv, board')
      \<longrightarrow> board' = board) \<and>
   (v3_root_loop limit R clock start_time time_limit depth moves k board acc = Inr (ms, board')
      \<longrightarrow> board' = board)"
proof (intro conjI impI)
  assume "alpha_beta limit R board depth alpha beta maximizing_player = Inr (v, board')"
  then show "board' = board" by (rule alpha_beta_board)
next
  assume r: "uci_find_best_move limit R clock board depth time_limit = Inr (mv, board')"
  show "board' = board"
  proof (cases "legal_moves R (position board) = []")
    case True
    with r show ?thesis by (simp add: uci_find_best_move_def)
  next
    case False
    with r show ?thesis
      by (auto simp: uci_find_best_move_def Let_def split: sum.splits dest: uci_root_loop_board)
  qed
next
  assume "v3_root_loop limit R clock start_time time_limit depth moves k board acc = Inr (ms, board')"
  then show "board' = board" by (rule v3_root_loop_board)
qed

theorem board_restored_on_return_witness:
  "alpha_beta 2 tree_rules (fresh_board kp_root) 1 NegInf PosInf True
     = Inr (Fin (- 115), fresh_board kp_root)
   \<and> uci_find_best_move 2 tree_rules ticking (fresh_board kp_root) 1 10
     = Inr (Some ''f7f6'', fresh_board kp_root)"
proof -
  have "map_sum id fst (alpha_beta 2 tree_rules (fresh_board kp_root) 1 NegInf PosInf True)
          = Inr (Fin (- 115))"
    by code_simp
  then obtain b1 where
    a: "alpha_beta 2 tree_rules (fresh_board kp_root) 1 NegInf PosInf True = Inr (Fin (- 115), b1)"
    by (cases "alpha_beta 2 tree_rules (fresh_board kp_root) 1 NegInf PosInf True") auto
  have "map_sum id fst (uci_find_best_move 2 tree_rules ticking (fresh_board kp_root) 1 10)
          = Inr (Some ''f7f6'')"
    by code_simp
  then obtain b2 where
    f: "uci_find_best_move 2 tree_rules ticking (fresh_board kp_root) 1 10 = Inr (Some ''f7f6'', b2)"
    by (cases "uci_find_best_move 2 tree_rules ticking (fresh_board kp_root) 1 10") auto
  from a board_restored_on_return[of 2 tree_rules "fresh_board kp_root" 1 NegInf PosInf True
      "Fin (- 115)" b1]
  have "b1 = fresh_board kp_root" by blast
  moreover
  from f board_restored_on_return[of 2 tree_rules "fresh_board kp_root" _ _ _ _ _ b2
      ticking 10 "Some ''f7f6''"]
  have "b2 = fresh_board kp_root" by blast
  ultimately show ?thesis using a f by simp
qed

text \<open>
  C4 fails in \<^verbatim>\<open>chessEngine_uci.py\<close>: with the five legal moves of \<open>kp_root\<close>, a time
  limit of 0 and a clock that has advanced by the first check, \<open>find_best_move\<close> returns
  \<^verbatim>\<open>None\<close>, whereas \<^verbatim>\<open>chess_engine_v3.py\<close> returns the first legal move.
\<close>

theorem uci_expired_returns_no_move:
  "legal_moves tree_rules (position (fresh_board kp_root))
     = [''f7f8'', ''f7e8'', ''f7e7'', ''f7f6'', ''f7e6'']
   \<and> ticking 1 - ticking 0 > 0
   \<and> uci_find_best_move 4 tree_rules ticking (fresh_board kp_root) 3 0
       = Inr (None, fresh_board kp_root)
   \<and> v3_find_best_move 4 tree_rules ticking (fresh_board kp_root) 3 0 = Inr (Some ''f7f8'')"
  by code_simp

text \<open>
  C5. A move returned by \<open>find_best_move\<close> is a legal move of the caller's board as it is
  at the return, in both files.
\<close>

theorem returned_move_is_legal:
  "(uci_find_best_move limit R clock board depth time_limit = Inr (Some m, board')
      \<longrightarrow> m \<in> set (legal_moves R (position board'))) \<and>
   (v3_find_best_move limit R clock board depth time_limit = Inr (Some m)
      \<longrightarrow> m \<in> set (legal_moves R (position board)))"
proof (intro conjI impI)
  assume r: "uci_find_best_move limit R clock board depth time_limit = Inr (Some m, board')"
  then have ne: "legal_moves R (position board) \<noteq> []"
    by (auto simp: uci_find_best_move_def)
  with r obtain bs where
    l: "uci_root_loop limit R clock (clock 0) time_limit depth (legal_moves R (position board)) 1
          board None (if turn R (position board) = White then NegInf else PosInf)
        = Inr (Some m, bs, board')"
    by (auto simp: uci_find_best_move_def Let_def split: sum.splits)
  from uci_root_loop_move[OF l] have "m \<in> set (legal_moves R (position board))"
    by auto
  moreover from l have "board' = board"
    by (rule uci_root_loop_board)
  ultimately show "m \<in> set (legal_moves R (position board'))"
    by simp
next
  assume r: "v3_find_best_move limit R clock board depth time_limit = Inr (Some m)"
  then have ne: "legal_moves R (position board) \<noteq> []"
    by (auto simp: v3_find_best_move_def)
  then have first: "first_or_None (legal_moves R (position board)) = Some m
      \<Longrightarrow> m \<in> set (legal_moves R (position board))"
    by (cases "legal_moves R (position board)") (auto simp: first_or_None_def)
  from r ne show "m \<in> set (legal_moves R (position board))"
    by (auto simp: v3_find_best_move_def Let_def first
        split: sum.splits if_splits prod.splits)
qed

theorem returned_move_is_legal_witness:
  "uci_find_best_move 2 tree_rules ticking (fresh_board kp_root) 1 10
     = Inr (Some ''f7f6'', fresh_board kp_root)
   \<and> v3_find_best_move 2 tree_rules ticking (fresh_board kp_root) 1 10 = Inr (Some ''f7f6'')
   \<and> ''f7f6'' \<in> set (legal_moves tree_rules (position (fresh_board kp_root)))"
proof -
  have u: "uci_find_best_move 2 tree_rules ticking (fresh_board kp_root) 1 10
     = Inr (Some ''f7f6'', fresh_board kp_root)"
    by code_simp
  have v: "v3_find_best_move 2 tree_rules ticking (fresh_board kp_root) 1 10 = Inr (Some ''f7f6'')"
    by code_simp
  from u returned_move_is_legal[of 2 tree_rules ticking "fresh_board kp_root" 1 10 "''f7f6''"
      "fresh_board kp_root"]
  have "''f7f6'' \<in> set (legal_moves tree_rules (position (fresh_board kp_root)))"
    by blast
  with u v show ?thesis by simp
qed

text \<open>
  C6 fails on the code: \<open>kp_mirrored\<close> is \<open>kp_root\<close> with the colours exchanged, the
  board mirrored and the other side to move, neither position is terminal, and
  \<open>evaluate_position\<close> returns 135 for both instead of 135 and -135. The same holds for
  every such pair of positions (lemma \<open>mirrored_same_score\<close>).
\<close>

theorem mirrored_position_same_score:
  "mirrored tree_rules kp_root kp_mirrored
   \<and> is_game_over tree_rules kp_root = False \<and> is_game_over tree_rules kp_mirrored = False
   \<and> evaluate_position tree_rules kp_root = 135
   \<and> evaluate_position tree_rules kp_mirrored = 135"
  by code_simp

text \<open>
  C7. Let \<open>ms\<close> be the root moves searched before the time limit, with their scores, in
  enumeration order (the list \<^verbatim>\<open>move_scores\<close> of \<^verbatim>\<open>chess_engine_v3.py\<close>). Both versions
  of \<open>find_best_move\<close> return the first move of \<open>ms\<close> whose score is the greatest when
  White is to move at the root, the least when Black is: a later move with an equal score
  never replaces an earlier one.
\<close>

theorem first_seen_best_move_kept:
  assumes "v3_root_loop limit R clock (clock 0) time_limit depth
             (legal_moves R (position board)) 1 board [] = Inr (ms, sb)"
  shows "uci_find_best_move limit R clock board depth time_limit
           = Inr (first_best (turn R (position board)) ms, board)
         \<and> (ms \<noteq> [] \<longrightarrow>
              v3_find_best_move limit R clock board depth time_limit
                = Inr (first_best (turn R (position board)) ms))"
proof
  let ?c = "turn R (position board)"
  have fin: "set (map snd ms) \<subseteq> range Fin"
    using assms by (rule v3_root_loop_finite)
  show "uci_find_best_move limit R clock board depth time_limit = Inr (first_best ?c ms, board)"
  proof (cases "legal_moves R (position board) = []")
    case True
    with assms have "ms = []" by simp
    with True show ?thesis
      by (simp add: uci_find_best_move_def first_best_def)
  next
    case False
    have "fst (fold (better ?c) ms (None, if ?c = White then NegInf else PosInf)) = first_best ?c ms"
      using fin by (rule fold_better_first_best)
    moreover
    have "uci_root_loop limit R clock (clock 0) time_limit depth (legal_moves R (position board)) 1
            board None (if ?c = White then NegInf else PosInf)
          = Inr (fst (fold (better ?c) ms (None, if ?c = White then NegInf else PosInf)),
                 snd (fold (better ?c) ms (None, if ?c = White then NegInf else PosInf)), board)"
      using uci_root_loop_scores[OF assms, of None "if ?c = White then NegInf else PosInf"]
      by (simp add: Let_def)
    ultimately show ?thesis
      unfolding uci_find_best_move_def Let_def using False by (simp del: fold_simps)
  qed
  show "ms \<noteq> [] \<longrightarrow> v3_find_best_move limit R clock board depth time_limit
                = Inr (first_best ?c ms)"
  proof
    assume ne: "ms \<noteq> []"
    with assms have mv: "legal_moves R (position board) \<noteq> []"
      by auto
    from py_max_min_first_best[OF ne, of ?c] obtain best where
      b: "(if ?c = White then py_max snd ms else py_min snd ms) = Inr best"
      and f: "first_best ?c ms = Some (fst best)" and m: "best \<in> set ms"
      by blast
    from m have "fst best \<in> set (map fst ms)" by simp
    with v3_root_loop_moves[OF assms] have "fst best \<in> set (legal_moves R (position board))"
      by blast
    then have sel: "(case Inr best of
              Inl e \<Rightarrow> Inl e
            | Inr (best_move, best_score) \<Rightarrow>
                if best_move \<notin> set (legal_moves R (position board))
                then Inr (first_or_None (legal_moves R (position board)))
                else Inr (Some best_move)) = (Inr (Some (fst best)) :: error + _ option)"
      by (cases best) simp
    have "v3_find_best_move limit R clock board depth time_limit =
          (case (if ?c = White then py_max snd ms else py_min snd ms) of
              Inl e \<Rightarrow> Inl e
            | Inr (best_move, best_score) \<Rightarrow>
                if best_move \<notin> set (legal_moves R (position board))
                then Inr (first_or_None (legal_moves R (position board)))
                else Inr (Some best_move))"
      unfolding v3_find_best_move_def Let_def assms using mv ne by simp
    also have "\<dots> = Inr (Some (fst best))"
      unfolding b by (rule sel)
    finally show "v3_find_best_move limit R clock board depth time_limit
                = Inr (first_best ?c ms)"
      by (simp add: f)
  qed
qed

theorem first_seen_best_move_kept_witness:
  "uci_find_best_move 2 tree_rules ticking (fresh_board kp_root) 1 10
     = Inr (Some ''f7f6'', fresh_board kp_root)
   \<and> v3_find_best_move 2 tree_rules ticking (fresh_board kp_root) 1 10 = Inr (Some ''f7f6'')"
proof -
  let ?ms = "[(''f7f8'', Fin (- 145)), (''f7e8'', Fin (- 135)), (''f7e7'', Fin (- 135)),
              (''f7f6'', Fin (- 115)), (''f7e6'', Fin (- 115))]"
  have l: "v3_root_loop 2 tree_rules ticking (ticking 0) 10 1
             (legal_moves tree_rules (position (fresh_board kp_root))) 1 (fresh_board kp_root) []
           = Inr (?ms, fresh_board kp_root)"
    by code_simp
  have c: "first_best (turn tree_rules (position (fresh_board kp_root))) ?ms = Some ''f7f6''"
    by code_simp
  have "?ms \<noteq> []" by simp
  with first_seen_best_move_kept[OF l] c show ?thesis
    by simp
qed

text \<open>
  C8 fails on the code: for a \<^verbatim>\<open>position fen\<close> line without \<^verbatim>\<open>moves\<close> the slice
  \<^verbatim>\<open>parts[2:-1]\<close> leaves out the last word, so the string given to \<^verbatim>\<open>chess.Board\<close> lacks
  the last field of the FEN (here the move number 40).
\<close>

theorem position_fen_drops_last_field:
  "position_fen (split ''position fen 8/5K1k/7P/8/8/8/8/8 w - - 12 40'')
     = (''8/5K1k/7P/8/8/8/8/8 w - - 12'', [])
   \<and> position_fen (split ''position fen 8/5K1k/7P/8/8/8/8/8 w - - 12 40 moves f7f6'')
     = (''8/5K1k/7P/8/8/8/8/8 w - - 12 40'', [''f7f6''])"
  by code_simp

text \<open>
  C9. For every board, window and node kind and every depth from 0 on, \<open>alpha_beta\<close>
  returns a score and raises nothing, using at most depth + 1 nested calls.
\<close>

theorem alpha_beta_returns:
  "0 \<le> depth \<Longrightarrow> nat depth < limit \<Longrightarrow>
   \<exists>v. alpha_beta limit R board depth alpha beta maximizing_player = Inr (v, board)"
  by (rule alpha_beta_total)

theorem alpha_beta_returns_witness:
  "\<exists>v. alpha_beta 2 tree_rules (fresh_board kp_root) 1 (Fin 0) (Fin 50) False
          = Inr (v, fresh_board kp_root)"
  by (rule alpha_beta_returns) simp_all

text \<open>
  C10. The score \<open>alpha_beta\<close> returns is never one of the infinite start values: it is
  the integer \<open>evaluate_position\<close> gives for some position at most \<open>depth\<close> legal moves
  away from the board's position.
\<close>

theorem alpha_beta_returns_leaf_score:
  assumes "0 \<le> depth" and "nat depth < limit"
  shows "\<exists>p \<in> set (positions_within R (position board) (nat depth)).
           alpha_beta limit R board depth alpha beta maximizing_player
             = Inr (Fin (evaluate_position R p), board)"
proof -
  from alpha_beta_total[OF assms] obtain v where
    r: "alpha_beta limit R board depth alpha beta maximizing_player = Inr (v, board)"
    by blast
  from alpha_beta_leaf[OF r assms(1)] r show ?thesis
    by auto
qed

theorem alpha_beta_returns_leaf_score_witness:
  "\<exists>p \<in> set (positions_within tree_rules (position (fresh_board kp_root)) (nat 1)).
     alpha_beta 2 tree_rules (fresh_board kp_root) 1 (Fin 0) (Fin 50) True
       = Inr (Fin (evaluate_position tree_rules p), fresh_board kp_root)"
  by (rule alpha_beta_returns_leaf_score) simp_all

end
